theory Spec2Isabelle
  imports Complex_Main
begin

section \<open>Numbers and strings\<close>

text \<open>
  The component is TypeScript. A \<^verbatim>\<open>number\<close> is modelled as a real: the beat scan only
  compares and subtracts millisecond values, which doubles do exactly on integers below
  \<open>2 ^ 53\<close>, and the easing polynomial is stated over the reals. The one place where a
  finite input produces a non-finite double, the division by a zero beat duration, is
  written out in \<open>beat_progress\<close> below. Where \<^verbatim>\<open>Math.floor\<close> turns a product or a
  quotient into the integer size of the canvas, the rounding of the double decides the
  result, and the operations are rounded with \<open>round_double\<close>. A string is a list of
  characters.
\<close>

subsection \<open>Rounding to a double\<close>

text \<open>
  The greatest power of two that is at most \<open>x\<close>: by halving for \<open>x\<close> from 2 on, by
  doubling for \<open>x\<close> below 1.
\<close>

function pow2_below :: "real \<Rightarrow> real" where
  "pow2_below x = (if 2 \<le> x then 2 * pow2_below (x / 2) else 1)"
  by pat_completeness auto
termination
proof (relation "measure (\<lambda>x. nat \<lfloor>x\<rfloor>)")
  show "wf (measure (\<lambda>x. nat \<lfloor>x\<rfloor>))" by simp
next
  fix x :: real
  assume x: "2 \<le> x"
  have "x / 2 \<le> x - 1" using x by simp
  then have "\<lfloor>x / 2\<rfloor> \<le> \<lfloor>x - 1\<rfloor>" by (rule floor_mono)
  then have "\<lfloor>x / 2\<rfloor> < \<lfloor>x\<rfloor>" by simp
  moreover have "0 < \<lfloor>x\<rfloor>" using x by simp
  ultimately show "(x / 2, x) \<in> measure (\<lambda>x. nat \<lfloor>x\<rfloor>)" by simp
qed

function pow2_above :: "real \<Rightarrow> real" where
  "pow2_above x = (if 0 < x \<and> x < 1 then pow2_above (2 * x) / 2 else 1)"
  by pat_completeness auto
termination
proof (relation "measure (\<lambda>x. nat \<lceil>1 / x\<rceil>)")
  show "wf (measure (\<lambda>x. nat \<lceil>1 / x\<rceil>))" by simp
next
  fix x :: real
  assume x: "0 < x \<and> x < 1"
  define y where "y = 1 / x"
  have y: "1 < y" using x by (simp add: y_def)
  then have "1 < \<lceil>y\<rceil>" by (simp add: less_ceiling_iff)
  then have c: "2 \<le> \<lceil>y\<rceil>" by simp
  have c': "(2 :: real) \<le> of_int \<lceil>y\<rceil>" using c by linarith
  have le: "y \<le> of_int \<lceil>y\<rceil>" by (rule le_of_int_ceiling)
  have "y / 2 \<le> of_int \<lceil>y\<rceil> - 1" using c' le by linarith
  then have "y / 2 \<le> of_int (\<lceil>y\<rceil> - 1)" by simp
  then have "\<lceil>y / 2\<rceil> \<le> \<lceil>y\<rceil> - 1" by (simp only: ceiling_le_iff)
  moreover have "1 / (2 * x) = y / 2" by (simp add: y_def)
  ultimately have "\<lceil>1 / (2 * x)\<rceil> < \<lceil>1 / x\<rceil>" by (simp add: y_def mult.commute)
  moreover have "0 < \<lceil>1 / x\<rceil>" using c unfolding y_def by linarith
  ultimately show "(2 * x, x) \<in> measure (\<lambda>x. nat \<lceil>1 / x\<rceil>)" by simp
qed

declare pow2_below.simps [simp del] pow2_above.simps [simp del]

text \<open>
  A double has 53 significant bits: the doubles from a power of two up to the next are
  spaced by that power over \<open>2 ^ 52\<close>. The result of an arithmetic operation is the
  double nearest to the exact result, the one with the even significand at a tie.
  This is the rounding for magnitudes in the normal range of doubles, which the sizes
  of a canvas are.
\<close>

definition ulp :: "real \<Rightarrow> real" where
  "ulp a = (if 1 \<le> a then pow2_below a else pow2_above a) / 2 ^ 52"

definition round_half_even :: "real \<Rightarrow> int" where
  "round_half_even m =
     (if m - of_int \<lfloor>m\<rfloor> < 1 / 2 then \<lfloor>m\<rfloor>
      else if 1 / 2 < m - of_int \<lfloor>m\<rfloor> then \<lfloor>m\<rfloor> + 1
      else if even \<lfloor>m\<rfloor> then \<lfloor>m\<rfloor> else \<lfloor>m\<rfloor> + 1)"

definition round_double :: "real \<Rightarrow> real" where
  "round_double x =
     (if x = 0 then 0
      else sgn x * of_int (round_half_even (\<bar>x\<bar> / ulp \<bar>x\<bar>)) * ulp \<bar>x\<bar>)"

subsection \<open>easeInOutCubic (CanvasReelPlayer.tsx, lines 12-14)\<close>

definition easeInOutCubic :: "real \<Rightarrow> real" where
  "easeInOutCubic t = (if t < 1 / 2 then 4 * t * t * t else 1 - (- 2 * t + 2) ^ 3 / 2)"

subsection \<open>String.split and Array.join with a single space\<close>

text \<open>
  \<^verbatim>\<open>text.split(' ')\<close> cuts at every space and keeps empty pieces: the empty string
  gives one empty word, two spaces in a row give an empty word between them.
\<close>

fun split_sp :: "string \<Rightarrow> string list" where
  "split_sp [] = [[]]"
| "split_sp (c # cs) =
     (if c = CHR '' '' then [] # split_sp cs
      else (case split_sp cs of
              [] \<Rightarrow> [[c]]
            | w # ws \<Rightarrow> (c # w) # ws))"

fun join_sp :: "string list \<Rightarrow> string" where
  "join_sp [] = []"
| "join_sp [l] = l"
| "join_sp (l # m # ls) = l @ CHR '' '' # join_sp (m # ls)"

subsection \<open>wrapText (lines 16-32)\<close>

text \<open>
  The \<^verbatim>\<open>for (const w of words)\<close> loop, with the two variables it updates, \<open>lines\<close>
  and \<open>current\<close>; \<open>test\<close> is the candidate line of line 21. \<open>measureText\<close> is
  \<^verbatim>\<open>ctx.measureText(s).width\<close> under the font the context has at the call. A
  JavaScript string is truthy when it is not empty.
\<close>

definition test :: "string \<Rightarrow> string \<Rightarrow> string" where
  "test current w = (if current \<noteq> [] then current @ CHR '' '' # w else w)"

fun wrap_loop ::
  "(string \<Rightarrow> real) \<Rightarrow> real \<Rightarrow> string list \<Rightarrow> string list \<Rightarrow> string \<Rightarrow> string list \<times> string"
where
  "wrap_loop measureText maxWidth [] lines current = (lines, current)"
| "wrap_loop measureText maxWidth (w # ws) lines current =
     (if measureText (test current w) > maxWidth \<and> current \<noteq> []
      then wrap_loop measureText maxWidth ws (lines @ [current]) w
      else wrap_loop measureText maxWidth ws lines (test current w))"

definition wrapText :: "(string \<Rightarrow> real) \<Rightarrow> string \<Rightarrow> real \<Rightarrow> string list" where
  "wrapText measureText text maxWidth =
     (case wrap_loop measureText maxWidth (split_sp text) [] [] of
        (lines, current) \<Rightarrow> if current \<noteq> [] then lines @ [current] else lines)"

section \<open>The reel plan and the beat scan\<close>

text \<open>
  Modelled from the spec: the \<^verbatim>\<open>ReelPlan\<close> type is declared in \<^verbatim>\<open>@/lib/agent\<close>, which is
  not among the sources. The fields are those of the spec's data model, all of which the
  sources read. Title, call to action and hashtags are optional here because the renderer
  guards each of them (\<^verbatim>\<open>plan?.title || 'Reel'\<close>, \<^verbatim>\<open>plan?.cta || ''\<close>,
  \<^verbatim>\<open>plan?.hashtags?.slice(0, 3)\<close>); the beat list is read unguarded.
\<close>

record beat =
  beat_text :: string
  durationMs :: real

record reel_plan =
  title :: "string option"
  hook :: string
  cta :: "string option"
  hashtags :: "string list option"
  beats :: "beat list"
  captions :: "string list"

text \<open>Line 44: \<^verbatim>\<open>plan?.beats.reduce((a, b) => a + b.durationMs, 0) ?? 0\<close>.\<close>

definition totalDuration :: "reel_plan option \<Rightarrow> real" where
  "totalDuration plan =
     (case plan of None \<Rightarrow> 0 | Some p \<Rightarrow> foldl (\<lambda>a b. a + durationMs b) 0 (beats p))"

text \<open>
  Lines 63-70, the loop that determines the current beat. The arguments are the
  durations still to visit, the loop index \<open>i\<close>, and the variables \<open>t\<close> and \<open>beatStart\<close>;
  the result is \<open>(beatIndex, t, beatStart)\<close> after the loop. \<open>beatIndex\<close> is assigned only
  on \<^verbatim>\<open>break\<close>; when the loop runs to its end it still holds its initial value 0.
\<close>

fun beat_scan :: "real list \<Rightarrow> nat \<Rightarrow> real \<Rightarrow> real \<Rightarrow> nat \<times> real \<times> real" where
  "beat_scan [] i t beatStart = (0, t, beatStart)"
| "beat_scan (d # ds) i t beatStart =
     (if t < d then (i, t, beatStart) else beat_scan ds (Suc i) (t - d) (beatStart + d))"

definition current_beat :: "reel_plan option \<Rightarrow> real \<Rightarrow> nat \<times> real \<times> real" where
  "current_beat plan elapsed =
     (case plan of
        None \<Rightarrow> (0, elapsed, 0)
      | Some p \<Rightarrow> beat_scan (map durationMs (beats p)) 0 elapsed 0)"

text \<open>Line 71, \<^verbatim>\<open>plan?.beats[beatIndex]\<close>: undefined without a plan or out of range.\<close>

definition beat_at :: "reel_plan option \<Rightarrow> nat \<Rightarrow> beat option" where
  "beat_at plan beatIndex =
     (case plan of
        None \<Rightarrow> None
      | Some p \<Rightarrow> if beatIndex < length (beats p) then Some (beats p ! beatIndex) else None)"

text \<open>
  Line 72, \<^verbatim>\<open>beat ? Math.min(1, Math.max(0, t / beat.durationMs)) : 0\<close>. The result is
  \<open>None\<close> for NaN. Dividing by a zero duration gives NaN for \<open>t = 0\<close> and an infinity
  of the sign of \<open>t\<close> otherwise, which the clamp turns into 1 or 0.
\<close>

definition beat_progress :: "beat option \<Rightarrow> real \<Rightarrow> real option" where
  "beat_progress b t =
     (case b of
        None \<Rightarrow> Some 0
      | Some beat \<Rightarrow>
          if durationMs beat = 0
          then (if t = 0 then None else if 0 < t then Some 1 else Some 0)
          else Some (min 1 (max 0 (t / durationMs beat))))"

text \<open>
  The cumulative start and end of the beat at an index, in the words of the spec's
  timeline model: the sum of the durations before it, and that sum plus its own.
\<close>

definition cumulative_start :: "reel_plan \<Rightarrow> nat \<Rightarrow> real" where
  "cumulative_start p i = sum_list (map durationMs (take i (beats p)))"

definition cumulative_end :: "reel_plan \<Rightarrow> nat \<Rightarrow> real" where
  "cumulative_end p i = sum_list (map durationMs (take (Suc i) (beats p)))"

definition scenario_B :: reel_plan where
  "scenario_B =
     \<lparr>title = None, hook = [], cta = None, hashtags = None,
      beats = [\<lparr>beat_text = ''A'', durationMs = 1000\<rparr>, \<lparr>beat_text = ''B'', durationMs = 2000\<rparr>],
      captions = []\<rparr>"

section \<open>The frame renderer\<close>

text \<open>
  What \<open>drawFrame\<close> paints is recorded as the list of paint calls it makes on the 2D
  context, each with the context settings in force at the call: \<open>ClearRect x y w h\<close>,
  \<open>FillRect fillStyle x y w h\<close>, and
  \<open>FillText font fillStyle globalAlpha textBaseline text x y\<close>.
\<close>

datatype fill_style =
  Color string
  | LinearGradient real real real real "(real \<times> string) list"

datatype draw_op =
  ClearRect real real real real
  | FillRect fill_style real real real real
  | FillText string fill_style real string string real real

text \<open>The strings a frame draws, in paint order.\<close>

fun drawn_texts :: "draw_op list \<Rightarrow> string list" where
  "drawn_texts [] = []"
| "drawn_texts (FillText font style alpha baseline s x y # ops) = s # drawn_texts ops"
| "drawn_texts (ClearRect x y w h # ops) = drawn_texts ops"
| "drawn_texts (FillRect style x y w h # ops) = drawn_texts ops"

text \<open>
  The canvas element: its bitmap size, its CSS size (\<^verbatim>\<open>style.width\<close> and
  \<^verbatim>\<open>style.height\<close>, which the component only ever sets to a number of pixels), the
  2D context that \<^verbatim>\<open>getContext('2d')\<close> returns, if any, given by its text measurement
  (font, then text), the context's text baseline, which persists between frames, and
  the paint calls of the last frame.
\<close>

datatype css_length = Px real

record canvas =
  c_width :: int
  c_height :: int
  style_width :: css_length
  style_height :: css_length
  context2d :: "(string \<Rightarrow> string \<Rightarrow> real) option"
  textBaseline :: string
  painted :: "draw_op list"

text \<open>
  Assigning \<^verbatim>\<open>canvas.width\<close> or \<^verbatim>\<open>canvas.height\<close> clears the bitmap and resets the
  context to its default state.
\<close>

definition set_bitmap_size :: "int \<Rightarrow> int \<Rightarrow> canvas \<Rightarrow> canvas" where
  "set_bitmap_size w h c =
     c\<lparr>c_width := w, c_height := h, textBaseline := ''alphabetic'', painted := []\<rparr>"

definition FULL_W :: int where "FULL_W = 1080"
definition FULL_H :: int where "FULL_H = 1920"

text \<open>
  One render of the component: the props and the value of the \<open>isPlaying\<close> state that
  the render reads (line 40). Every function of the component body is a closure over
  these constants; a closure that is scheduled or suspended keeps the render it was
  made in. \<^verbatim>\<open>setIsPlaying\<close> sets the state cell for the renders to come; the
  \<open>isPlaying\<close> of a render that is already made does not change.
\<close>

record render =
  plan :: "reel_plan option"
  width :: real
  height :: real
  isPlaying :: bool

text \<open>Lines 92-110: the wrapped lines of the beat, eased in. A NaN coordinate paints nothing.\<close>

definition beat_lines ::
  "(string \<Rightarrow> string \<Rightarrow> real) \<Rightarrow> canvas \<Rightarrow> beat \<Rightarrow> real option \<Rightarrow> draw_op list"
where
  "beat_lines measureText c b progress =
     (let font = ''900 84px Inter, ui-sans-serif'';
          maxWidth = real_of_int (c_width c) - 128;
          lines = wrapText (measureText font) (beat_text b) maxWidth;
          lineH = 88;
          totalH = real (length lines) * lineH;
          baseY = real_of_int (c_height c) / 2 - totalH / 2
      in case progress of
           None \<Rightarrow> []
         | Some pr \<Rightarrow>
             map (\<lambda>i. let eased = easeInOutCubic (min 1 (pr * 12 / 10));
                          y = baseY + real i * lineH + (1 - eased) * 40
                      in FillText font (Color ''white'') (2 / 10 + 8 / 10 * eased) ''top''
                           (lines ! i) 64 y)
               [0..<length lines])"

text \<open>
  The three optional reads of the plan: \<^verbatim>\<open>plan?.title\<close>, \<^verbatim>\<open>plan?.cta\<close> and
  \<^verbatim>\<open>plan?.hashtags\<close>, undefined without a plan or without the field.
\<close>

definition plan_title :: "reel_plan option \<Rightarrow> string option" where
  "plan_title pl = (case pl of None \<Rightarrow> None | Some p \<Rightarrow> title p)"

definition plan_cta :: "reel_plan option \<Rightarrow> string option" where
  "plan_cta pl = (case pl of None \<Rightarrow> None | Some p \<Rightarrow> cta p)"

definition plan_hashtags :: "reel_plan option \<Rightarrow> string list option" where
  "plan_hashtags pl = (case pl of None \<Rightarrow> None | Some p \<Rightarrow> hashtags p)"

text \<open>
  Lines 52-123, for a canvas whose context is there. The result is the paint calls.
  \<^verbatim>\<open>x || y\<close> is \<open>y\<close> when \<open>x\<close> is undefined or the empty string.
\<close>

definition frame_ops ::
  "(string \<Rightarrow> string \<Rightarrow> real) \<Rightarrow> render \<Rightarrow> real \<Rightarrow> canvas \<Rightarrow> draw_op list"
where
  "frame_ops measureText r elapsed c =
     (let w = real_of_int (c_width c);
          h = real_of_int (c_height c);
          (beatIndex, t, beatStart) = current_beat (plan r) elapsed;
          b = beat_at (plan r) beatIndex;
          progress = beat_progress b t;
          title_text = (case plan_title (plan r) of
                          None \<Rightarrow> ''Reel''
                        | Some s \<Rightarrow> if s \<noteq> [] then s else ''Reel'');
          p = (if totalDuration (plan r) > 0 then elapsed / totalDuration (plan r) else 0);
          baseline = (case b of None \<Rightarrow> textBaseline c | Some _ \<Rightarrow> ''top'');
          cta_text = (case plan_cta (plan r) of
                        None \<Rightarrow> []
                      | Some s \<Rightarrow> if s \<noteq> [] then s else []);
          cta_font = ''600 48px Inter, ui-sans-serif'';
          tags = (case plan_hashtags (plan r) of
                    None \<Rightarrow> []
                  | Some hs \<Rightarrow> join_sp (take 3 hs))
      in [ClearRect 0 0 w h,
          FillRect (LinearGradient 0 0 w h [(0, ''#0ea5e9''), (1, ''#111827'')]) 0 0 w h,
          FillRect (Color ''rgba(0,0,0,0.15)'') 0 0 w h,
          FillText ''bold 56px Inter, ui-sans-serif'' (Color ''rgba(255,255,255,0.85)'') 1
            (textBaseline c) title_text 64 120,
          FillRect (Color ''rgba(255,255,255,0.2)'') 64 140 (w - 128) 8,
          FillRect (Color ''#22c55e'') 64 140 ((w - 128) * max 0 (min 1 p)) 8]
         @ (case b of None \<Rightarrow> [] | Some bt \<Rightarrow> beat_lines measureText c bt progress)
         @ [FillText cta_font (Color ''#d1fae5'') 1 baseline cta_text
              ((w - measureText cta_font cta_text) / 2) (h - 160),
            FillText ''500 36px Inter, ui-sans-serif'' (Color ''rgba(255,255,255,0.9)'') 1
              baseline tags 64 (h - 100)])"

text \<open>
  Lines 46-124. Without a canvas, or without a context, the frame is skipped (the two
  early returns); otherwise the canvas holds the new frame, and the baseline the frame
  left in the context.
\<close>

definition drawFrame :: "render \<Rightarrow> real \<Rightarrow> canvas option \<Rightarrow> canvas option" where
  "drawFrame r elapsed canvasRef_current =
     (case canvasRef_current of
        None \<Rightarrow> None
      | Some c \<Rightarrow>
          (case context2d c of
             None \<Rightarrow> Some c
           | Some measureText \<Rightarrow>
               Some (c\<lparr>textBaseline :=
                         (case beat_at (plan r) (fst (current_beat (plan r) elapsed)) of
                            None \<Rightarrow> textBaseline c
                          | Some _ \<Rightarrow> ''top''),
                       painted := frame_ops measureText r elapsed c\<rparr>)))"

section \<open>The player: playback and capture\<close>

text \<open>
  A callback handed to \<^verbatim>\<open>requestAnimationFrame\<close>: the preview's \<open>tick\<close> or the
  capture's \<open>loop\<close>, each a closure of the render it was created in.
\<close>

datatype callback = Tick render | Loop render

text \<open>
  The encoding sink is the browser's \<^verbatim>\<open>MediaRecorder\<close> on the canvas stream, known
  here by what the component does with it: it is started, it buffers chunks, and after
  \<^verbatim>\<open>recorder.stop()\<close> its stop event resolves the promise \<open>done\<close> with the chunks as
  one blob. A chunk stands for a frame painted while the sink is recording, named by
  its elapsed time. \<open>Stopped\<close> is the sink between the call of \<open>stop\<close> and its event.
\<close>

datatype recorder_state = Inactive | Recording | Stopped

datatype js_error = Error string | TypeError

text \<open>
  The mutable state of one mounted component: the three refs, the \<open>isPlaying\<close> state
  cell as last set, the pending animation-frame callbacks with their handles, the sink,
  the render whose \<open>recordFullPlayback\<close> is suspended at \<^verbatim>\<open>await done\<close>, and the blob
  that call has returned, if it has.
\<close>

record player =
  canvasRef :: "canvas option"
  isPlaying_state :: bool
  startTimeRef :: real
  rafRef :: "nat option"
  frame_requests :: "(nat \<times> callback) list"
  next_request :: nat
  recorder :: recorder_state
  chunks :: "real list"
  suspended :: "render option"
  returned :: "real list option"

definition requestAnimationFrame :: "callback \<Rightarrow> player \<Rightarrow> nat \<times> player" where
  "requestAnimationFrame cb st =
     (next_request st,
      st\<lparr>frame_requests := frame_requests st @ [(next_request st, cb)],
         next_request := Suc (next_request st)\<rparr>)"

definition cancelAnimationFrame :: "nat \<Rightarrow> player \<Rightarrow> player" where
  "cancelAnimationFrame h st =
     st\<lparr>frame_requests := filter (\<lambda>(h', cb). h' \<noteq> h) (frame_requests st)\<rparr>"

text \<open>A call of \<open>drawFrame\<close> on the component's canvas; the sink sees the frame if it records.\<close>

definition draw :: "render \<Rightarrow> real \<Rightarrow> player \<Rightarrow> player" where
  "draw r elapsed st =
     st\<lparr>canvasRef := drawFrame r elapsed (canvasRef st),
        chunks := (if recorder st = Recording
                      \<and> (case canvasRef st of None \<Rightarrow> False | Some c \<Rightarrow> context2d c \<noteq> None)
                   then chunks st @ [elapsed] else chunks st)\<rparr>"

text \<open>Lines 126-137.\<close>

definition tick :: "render \<Rightarrow> real \<Rightarrow> player \<Rightarrow> player" where
  "tick r now st =
     (if \<not> isPlaying r then st
      else if startTimeRef st = 0 then st
      else let elapsed = now - startTimeRef st
           in if elapsed \<ge> totalDuration (plan r)
              then (draw r (totalDuration (plan r)) st)
                     \<lparr>isPlaying_state := False, startTimeRef := 0\<rparr>
              else (case requestAnimationFrame (Tick r) (draw r elapsed st) of
                      (h, st') \<Rightarrow> st'\<lparr>rafRef := Some h\<rparr>))"

text \<open>Lines 139-144; \<open>now\<close> is the reading of \<^verbatim>\<open>performance.now()\<close>.\<close>

definition play :: "render \<Rightarrow> real \<Rightarrow> player \<Rightarrow> player" where
  "play r now st =
     (if plan r = None \<or> isPlaying r then st
      else (case requestAnimationFrame (Tick r)
                   (st\<lparr>isPlaying_state := True, startTimeRef := now\<rparr>) of
              (h, st') \<Rightarrow> st'\<lparr>rafRef := Some h\<rparr>))"

text \<open>Lines 146-151. A handle is truthy when it is there and not 0.\<close>

definition stop :: "render \<Rightarrow> player \<Rightarrow> player" where
  "stop r st =
     (let st1 = st\<lparr>isPlaying_state := False, startTimeRef := 0\<rparr>;
          st2 = (case rafRef st1 of
                   None \<Rightarrow> st1
                 | Some h \<Rightarrow> if h \<noteq> 0 then cancelAnimationFrame h st1 else st1)
      in draw r 0 st2)"

text \<open>
  Lines 153-189, \<open>recordFullPlayback\<close> up to \<^verbatim>\<open>await done\<close>. The snapshot \<open>prevW\<close>,
  \<open>prevH\<close>, \<open>prevStyle\<close> of line 158 is never read again and so leaves no trace here.
\<close>

definition recordFullPlayback :: "render \<Rightarrow> real \<Rightarrow> player \<Rightarrow> js_error + player" where
  "recordFullPlayback r now st =
     (if plan r = None then Inl (Error ''No plan'')
      else (case canvasRef st of
              None \<Rightarrow> Inl TypeError
            | Some canvas \<Rightarrow>
                (let canvas' = (set_bitmap_size FULL_W FULL_H canvas)
                       \<lparr>style_width := Px (real_of_int FULL_W),
                        style_height := Px (real_of_int FULL_H)\<rparr>;
                     st1 = st\<lparr>canvasRef := Some canvas', recorder := Recording, chunks := [],
                              isPlaying_state := True, startTimeRef := now\<rparr>;
                     st2 = snd (requestAnimationFrame (Loop r) st1)
                 in Inr (st2\<lparr>suspended := Some r\<rparr>))))"

text \<open>Lines 177-188, the capture's own frame callback.\<close>

definition loop :: "render \<Rightarrow> real \<Rightarrow> player \<Rightarrow> player" where
  "loop r now st =
     (if \<not> isPlaying r then st
      else let elapsed = now - startTimeRef st
           in if elapsed \<ge> totalDuration (plan r)
              then (draw r (totalDuration (plan r)) st)
                     \<lparr>isPlaying_state := False, recorder := Stopped\<rparr>
              else snd (requestAnimationFrame (Loop r) (draw r elapsed st)))"

text \<open>
  Lines 191-200, the rest of \<open>recordFullPlayback\<close>, run when \<open>done\<close> is resolved: the
  canvas is resized from the props, the first frame is drawn and the blob returned.
  \<^verbatim>\<open>Math.floor(FULL_W * (width / FULL_W))\<close> is the floor of a double: the quotient is
  rounded, and then the product.
\<close>

definition resume :: "render \<Rightarrow> player \<Rightarrow> player" where
  "resume r st =
     (let blob = chunks st;
          st1 = st\<lparr>canvasRef :=
                   map_option
                     (\<lambda>canvas. (set_bitmap_size
                                   \<lfloor>round_double (real_of_int FULL_W
                                      * round_double (width r / real_of_int FULL_W))\<rfloor>
                                   \<lfloor>round_double (real_of_int FULL_H
                                      * round_double (height r / real_of_int FULL_H))\<rfloor>
                                   canvas)
                                \<lparr>style_width := Px (width r), style_height := Px (height r)\<rparr>)
                     (canvasRef st)\<rparr>
      in (draw r 0 st1)\<lparr>suspended := None, returned := Some blob\<rparr>)"

text \<open>
  Lines 205-216, the effect that runs after mount and when the props change: the bitmap
  is scaled up to the full resolution, the CSS size is the props'. The two quotients of
  \<open>scale\<close> and the two products are doubles, rounded each. The props are positive
  sizes; the division is not meant for a width or height of 0.
\<close>

definition size_effect :: "render \<Rightarrow> player \<Rightarrow> player" where
  "size_effect r st =
     (case canvasRef st of
        None \<Rightarrow> st
      | Some c \<Rightarrow>
          (let scale = min (round_double (real_of_int FULL_W / width r))
                           (round_double (real_of_int FULL_H / height r));
               c' = (set_bitmap_size \<lfloor>round_double (width r * scale)\<rfloor>
                                     \<lfloor>round_double (height r * scale)\<rfloor> c)
                      \<lparr>style_width := Px (width r), style_height := Px (height r)\<rparr>
           in draw r 0 (st\<lparr>canvasRef := Some c'\<rparr>)))"

text \<open>
  One animation frame: the callbacks pending at its start run in order with the frame's
  timestamp; what they request runs in a later frame. After the frame, if the sink has
  been stopped, its stop event resolves \<open>done\<close> and the suspended call resumes.
\<close>

fun run_callback :: "real \<Rightarrow> player \<Rightarrow> nat \<times> callback \<Rightarrow> player" where
  "run_callback now st (h, Tick r) = tick r now st"
| "run_callback now st (h, Loop r) = loop r now st"

definition settle :: "player \<Rightarrow> player" where
  "settle st =
     (case suspended st of
        None \<Rightarrow> st
      | Some r \<Rightarrow> if recorder st = Stopped then resume r (st\<lparr>recorder := Inactive\<rparr>) else st)"

definition animation_frame :: "real \<Rightarrow> player \<Rightarrow> player" where
  "animation_frame now st =
     settle (foldl (run_callback now) (st\<lparr>frame_requests := []\<rparr>) (frame_requests st))"

text \<open>
  The closures that the imperative handle offers are those of the last render, which
  React makes after every state change: line 203 rebuilds the handle when \<open>plan\<close>,
  \<open>isPlaying\<close> or \<open>totalDuration\<close> change. So a call through the handle reads the props
  and the \<open>isPlaying\<close> state as they are when the call is made.
\<close>

definition handle :: "reel_plan option \<Rightarrow> real \<Rightarrow> real \<Rightarrow> player \<Rightarrow> render" where
  "handle p w h st = \<lparr>plan = p, width = w, height = h, isPlaying = isPlaying_state st\<rparr>"

definition pending_ticks :: "player \<Rightarrow> nat" where
  "pending_ticks st =
     length (filter (\<lambda>(h, cb). case cb of Tick r \<Rightarrow> True | Loop r \<Rightarrow> False) (frame_requests st))"

text \<open>The size of the canvas: bitmap width and height, CSS width and height.\<close>

definition geometry :: "player \<Rightarrow> (int \<times> int \<times> css_length \<times> css_length) option" where
  "geometry st =
     map_option (\<lambda>c. (c_width c, c_height c, style_width c, style_height c)) (canvasRef st)"

text \<open>The component as the page mounts it, before its first effect: a 300 by 150 canvas.\<close>

definition mounted :: "(string \<Rightarrow> string \<Rightarrow> real) \<Rightarrow> real \<Rightarrow> real \<Rightarrow> player" where
  "mounted measureText w h =
     \<lparr>canvasRef = Some \<lparr>c_width = 300, c_height = 150, style_width = Px w, style_height = Px h,
                         context2d = Some measureText, textBaseline = ''alphabetic'',
                         painted = []\<rparr>,
      isPlaying_state = False, startTimeRef = 0, rafRef = None, frame_requests = [],
      next_request = 1, recorder = Inactive, chunks = [], suspended = None, returned = None\<rparr>"

text \<open>A text measurement for the examples: ten pixels a character in every font.\<close>

definition fixed_pitch :: "string \<Rightarrow> string \<Rightarrow> real" where
  "fixed_pitch font s = 10 * real (length s)"

section \<open>Scenarios\<close>

text \<open>
  What the page does to the player: its three buttons call \<open>play\<close>, \<open>stop\<close> and
  \<open>recordFullPlayback\<close> through the handle, and the browser delivers animation frames.
  A call of \<open>recordFullPlayback\<close> that throws has changed nothing.
\<close>

datatype event = PressPlay real | PressStop | PressExport real | Frame real

fun step :: "reel_plan option \<Rightarrow> real \<Rightarrow> real \<Rightarrow> player \<Rightarrow> event \<Rightarrow> player" where
  "step p w h st (PressPlay now) = play (handle p w h st) now st"
| "step p w h st PressStop = stop (handle p w h st) st"
| "step p w h st (PressExport now) =
     (case recordFullPlayback (handle p w h st) now st of Inl e \<Rightarrow> st | Inr st' \<Rightarrow> st')"
| "step p w h st (Frame now) = animation_frame now st"

text \<open>
  The player as the page mounts it (line 116 of the page: 360 by 640, here with the plan
  of scenario B), after its size effect has run, and the closures that its handle then
  offers; then a capture that is stopped before its first frame, and a capture that
  runs to the end of the plan after Play was pressed.
\<close>

definition after_mount :: player where
  "after_mount = size_effect (handle (Some scenario_B) 360 640 (mounted fixed_pitch 360 640))
                   (mounted fixed_pitch 360 640)"

definition first_handle :: render where
  "first_handle = handle (Some scenario_B) 360 640 after_mount"

definition cancelled_capture :: player where
  "cancelled_capture =
     foldl (step (Some scenario_B) 360 640) after_mount [PressExport 1000, PressStop, Frame 1016]"

definition completed_capture :: player where
  "completed_capture =
     foldl (step (Some scenario_B) 360 640) after_mount
       [PressPlay 100, Frame 116, PressExport 1000, Frame 1016, Frame 4000]"

definition stopped_running_capture :: player where
  "stopped_running_capture =
     foldl (step (Some scenario_B) 360 640) after_mount
       [PressPlay 100, Frame 116, PressExport 1000, Frame 1016, PressStop, Frame 5000]"

text \<open>A render without a plan, and a preview canvas with a context.\<close>

definition null_render :: render where
  "null_render = \<lparr>plan = None, width = 360, height = 640, isPlaying = False\<rparr>"

definition preview_canvas :: canvas where
  "preview_canvas =
     \<lparr>c_width = 1080, c_height = 1920, style_width = Px 360, style_height = Px 640,
      context2d = Some fixed_pitch, textBaseline = ''alphabetic'', painted = []\<rparr>"

definition frame_texts :: "canvas option \<Rightarrow> string list" where
  "frame_texts canvasRef_current =
     (case canvasRef_current of None \<Rightarrow> [] | Some c \<Rightarrow> drawn_texts (painted c))"

text \<open>A measurement under which a string gets narrower when a character is appended.\<close>

definition spiky_measure :: "string \<Rightarrow> real" where
  "spiky_measure s = (if s = ''a '' then 10 else 0)"

section \<open>Predicates of the proofs about wrapText\<close>

text \<open>A line fits, or is one of the given words.\<close>

definition fits_or_word :: "(string \<Rightarrow> real) \<Rightarrow> real \<Rightarrow> string set \<Rightarrow> string \<Rightarrow> bool" where
  "fits_or_word m mw W l \<longleftrightarrow> m l \<le> mw \<or> l \<in> W"

text \<open>
  A line replays: wrapping its own words from an empty \<open>current\<close> rebuilds it without a
  break. One line breaks before the next: the first with the first word of the next is
  too wide. The invariant of the loop, for a measurement that never shrinks under
  appending: the committed lines replay and break before one another, \<open>current\<close> replays,
  and the last committed line breaks before \<open>current\<close>, or, while \<open>current\<close> is empty,
  is too wide already with a space appended.
\<close>

definition replays :: "(string \<Rightarrow> real) \<Rightarrow> real \<Rightarrow> string \<Rightarrow> bool" where
  "replays m mw l \<longleftrightarrow> l \<noteq> [] \<and> (\<forall>L. wrap_loop m mw (split_sp l) L [] = (L, l))"

definition breaks :: "(string \<Rightarrow> real) \<Rightarrow> real \<Rightarrow> string \<Rightarrow> string \<Rightarrow> bool" where
  "breaks m mw l l' \<longleftrightarrow> mw < m (l @ CHR '' '' # hd (split_sp l'))"

fun chained :: "(string \<Rightarrow> real) \<Rightarrow> real \<Rightarrow> string list \<Rightarrow> bool" where
  "chained m mw [] = True"
| "chained m mw [l] = True"
| "chained m mw (l # l' # ls) = (breaks m mw l l' \<and> chained m mw (l' # ls))"

definition wrap_inv :: "(string \<Rightarrow> real) \<Rightarrow> real \<Rightarrow> string list \<Rightarrow> string \<Rightarrow> bool" where
  "wrap_inv m mw lines current \<longleftrightarrow>
     (\<forall>l \<in> set lines. replays m mw l) \<and> chained m mw lines
     \<and> (current = [] \<or> replays m mw current)
     \<and> (lines \<noteq> [] \<longrightarrow>
          (if current \<noteq> [] then breaks m mw (last lines) current
           else mw < m (last lines @ [CHR '' ''])))"

section \<open>The easing curve\<close>

lemma ease_lower_half: "t < 1 / 2 \<Longrightarrow> easeInOutCubic t = 4 * t ^ 3"
  by (simp add: easeInOutCubic_def power3_eq_cube mult.assoc)

lemma ease_upper_half: "1 / 2 \<le> t \<Longrightarrow> easeInOutCubic t = 1 - (- 2 * t + 2) ^ 3 / 2"
  by (simp add: easeInOutCubic_def)

lemma ease_lower_le_half:
  assumes "0 \<le> s" "s < 1 / 2"
  shows "easeInOutCubic s \<le> 1 / 2"
proof -
  have "s ^ 3 \<le> (1 / 2) ^ 3"
    using assms by (intro power_mono) auto
  then show ?thesis
    using assms by (simp add: ease_lower_half power3_eq_cube)
qed

lemma ease_upper_ge_half:
  assumes "1 / 2 \<le> t" "t \<le> 1"
  shows "1 / 2 \<le> easeInOutCubic t"
proof -
  have "(- 2 * t + 2) ^ 3 \<le> 1 ^ 3"
    using assms by (intro power_mono) auto
  then show ?thesis
    using assms by (simp add: ease_upper_half)
qed

lemma ease_mono_unit:
  assumes "0 \<le> s" "s \<le> t" "t \<le> 1"
  shows "easeInOutCubic s \<le> easeInOutCubic t"
proof (cases "t < 1 / 2")
  case True
  then have "s < 1 / 2" using assms by simp
  have "s ^ 3 \<le> t ^ 3"
    using assms by (intro power_mono) auto
  then show ?thesis
    using True \<open>s < 1 / 2\<close> by (simp add: ease_lower_half)
next
  case tup: False
  show ?thesis
  proof (cases "s < 1 / 2")
    case True
    have "easeInOutCubic s \<le> 1 / 2"
      using assms True by (intro ease_lower_le_half) auto
    also have "1 / 2 \<le> easeInOutCubic t"
      using assms tup by (intro ease_upper_ge_half) auto
    finally show ?thesis .
  next
    case False
    have "(- 2 * t + 2) ^ 3 \<le> (- 2 * s + 2) ^ 3"
      using assms by (intro power_mono) auto
    then show ?thesis
      using False tup by (simp add: ease_upper_half)
  qed
qed

text \<open>
  C9. The easing function is \<open>4t\<^sup>3\<close> below one half and \<open>1 - (-2t + 2)\<^sup>3 / 2\<close> from one
  half on; it takes the values 0, 1/2 and 1 at 0, 1/2 and 1; and it is monotonically
  non-decreasing on the unit interval.
\<close>

theorem easeInOutCubic_shape:
  "(\<forall>t. t < 1 / 2 \<longrightarrow> easeInOutCubic t = 4 * t ^ 3)
   \<and> (\<forall>t. 1 / 2 \<le> t \<longrightarrow> easeInOutCubic t = 1 - (- 2 * t + 2) ^ 3 / 2)
   \<and> easeInOutCubic 0 = 0
   \<and> easeInOutCubic (1 / 2) = 1 / 2
   \<and> easeInOutCubic 1 = 1
   \<and> (\<forall>s t. 0 \<le> s \<and> s \<le> t \<and> t \<le> 1 \<longrightarrow> easeInOutCubic s \<le> easeInOutCubic t)"
proof -
  have "easeInOutCubic 0 = 0" "easeInOutCubic (1 / 2) = 1 / 2" "easeInOutCubic 1 = 1"
    by (simp_all add: easeInOutCubic_def)
  then show ?thesis
    using ease_lower_half ease_upper_half ease_mono_unit by blast
qed

theorem easeInOutCubic_shape_witness:
  "(1 / 4 :: real) < 1 / 2 \<and> easeInOutCubic (1 / 4) = 4 * (1 / 4) ^ 3
   \<and> (1 / 2 :: real) \<le> 3 / 4 \<and> easeInOutCubic (3 / 4) = 1 - (- 2 * (3 / 4) + 2) ^ 3 / 2
   \<and> (0 :: real) \<le> 1 / 4 \<and> (1 / 4 :: real) \<le> 3 / 4 \<and> (3 / 4 :: real) \<le> 1
   \<and> easeInOutCubic (1 / 4) \<le> easeInOutCubic (3 / 4)"
  using easeInOutCubic_shape by (simp add: power3_eq_cube)

section \<open>Word wrapping\<close>

subsection \<open>Splitting and joining\<close>

lemma split_sp_nonempty: "split_sp t \<noteq> []"
  by (induction t) (auto split: list.splits)

lemma join_sp_cons: "ls \<noteq> [] \<Longrightarrow> join_sp (l # ls) = l @ CHR '' '' # join_sp ls"
  by (cases ls) auto

lemma join_sp_cons_char: "join_sp ((c # w) # ws) = c # join_sp (w # ws)"
  by (cases ws) auto

lemma join_split: "join_sp (split_sp t) = t"
proof (induction t)
  case Nil
  show ?case by simp
next
  case (Cons c cs)
  obtain w ws where sp: "split_sp cs = w # ws"
    using split_sp_nonempty [of cs] by (cases "split_sp cs") auto
  show ?case
  proof (cases "c = CHR '' ''")
    case True
    then show ?thesis using Cons sp by simp
  next
    case False
    then show ?thesis using Cons sp by (simp add: join_sp_cons_char)
  qed
qed

lemma split_sp_no_space: "w \<in> set (split_sp t) \<Longrightarrow> CHR '' '' \<notin> set w"
proof (induction t arbitrary: w)
  case Nil
  then show ?case by simp
next
  case (Cons c cs)
  obtain v vs where sp: "split_sp cs = v # vs"
    using split_sp_nonempty [of cs] by (cases "split_sp cs") auto
  have v: "CHR '' '' \<notin> set v" and vs: "\<And>u. u \<in> set vs \<Longrightarrow> CHR '' '' \<notin> set u"
    using Cons.IH sp by auto
  show ?case
  proof (cases "c = CHR '' ''")
    case True
    then show ?thesis using Cons.prems sp v vs by auto
  next
    case False
    then show ?thesis using Cons.prems sp v vs by auto
  qed
qed

lemma split_sp_append_space: "split_sp (a @ CHR '' '' # b) = split_sp a @ split_sp b"
proof (induction a)
  case Nil
  show ?case by simp
next
  case (Cons c a)
  obtain w ws where sp: "split_sp a = w # ws"
    using split_sp_nonempty [of a] by (cases "split_sp a") auto
  show ?case using Cons sp by simp
qed

lemma split_sp_word: "CHR '' '' \<notin> set w \<Longrightarrow> split_sp w = [w]"
  by (induction w) auto

lemma split_join: "ls \<noteq> [] \<Longrightarrow> split_sp (join_sp ls) = concat (map split_sp ls)"
proof (induction ls rule: join_sp.induct)
  case 1
  then show ?case by simp
next
  case (2 l)
  show ?case by simp
next
  case (3 l m ls)
  then show ?case by (simp add: split_sp_append_space)
qed

lemma hd_split_append_space: "hd (split_sp (a @ CHR '' '' # b)) = hd (split_sp a)"
  using split_sp_nonempty [of a] by (simp add: split_sp_append_space)

lemma join_sp_merge_head: "join_sp ((a @ CHR '' '' # b) # ys) = join_sp (a # b # ys)"
  by (cases ys) auto

lemma join_sp_merge: "join_sp (xs @ (a @ CHR '' '' # b) # ys) = join_sp (xs @ a # b # ys)"
proof (induction xs)
  case Nil
  show ?case using join_sp_merge_head by simp
next
  case (Cons x xs)
  then show ?case by (simp add: join_sp_cons)
qed

subsection \<open>Wide lines\<close>

lemma wrap_loop_fits:
  assumes "set ws \<subseteq> W"
    and "\<forall>l \<in> set lines. fits_or_word m mw W l"
    and "current = [] \<or> fits_or_word m mw W current"
    and "wrap_loop m mw ws lines current = (L, c)"
  shows "(\<forall>l \<in> set L. fits_or_word m mw W l) \<and> (c = [] \<or> fits_or_word m mw W c)"
  using assms
proof (induction ws arbitrary: lines current)
  case Nil
  then show ?case by simp
next
  case (Cons w ws)
  have wW: "w \<in> W" and sub: "set ws \<subseteq> W" using Cons.prems(1) by auto
  show ?case
  proof (cases "m (test current w) > mw \<and> current \<noteq> []")
    case True
    then have run: "wrap_loop m mw ws (lines @ [current]) w = (L, c)"
      using Cons.prems(4) by simp
    have "\<forall>l \<in> set (lines @ [current]). fits_or_word m mw W l"
      using Cons.prems(2,3) True by auto
    moreover have "w = [] \<or> fits_or_word m mw W w"
      using wW by (simp add: fits_or_word_def)
    ultimately show ?thesis
      using Cons.IH [OF sub _ _ run] by blast
  next
    case False
    then have run: "wrap_loop m mw ws lines (test current w) = (L, c)"
      using Cons.prems(4) by auto
    have "fits_or_word m mw W (test current w)"
    proof (cases "current = []")
      case True
      then show ?thesis using wW by (simp add: test_def fits_or_word_def)
    next
      case nonempty: False
      then have "m (test current w) \<le> mw" using False by auto
      then show ?thesis by (simp add: fits_or_word_def)
    qed
    then show ?thesis
      using Cons.IH [OF sub Cons.prems(2) _ run] by blast
  qed
qed

text \<open>
  C6. For every text, maximum width and text measurement, a line of \<open>wrapText\<close> that
  measures strictly wider than the maximum width is a single word: it is one of the
  space-separated words of the text, and contains no space.
\<close>

theorem wrapText_wide_line_is_single_word:
  "\<forall>l \<in> set (wrapText measureText text maxWidth).
     maxWidth < measureText l \<longrightarrow> l \<in> set (split_sp text) \<and> CHR '' '' \<notin> set l"
proof
  fix l
  assume l: "l \<in> set (wrapText measureText text maxWidth)"
  obtain L c where run: "wrap_loop measureText maxWidth (split_sp text) [] [] = (L, c)"
    by (cases "wrap_loop measureText maxWidth (split_sp text) [] []") auto
  have inv: "(\<forall>l \<in> set L. fits_or_word measureText maxWidth (set (split_sp text)) l)
      \<and> (c = [] \<or> fits_or_word measureText maxWidth (set (split_sp text)) c)"
    by (rule wrap_loop_fits [OF _ _ _ run]) auto
  have "l \<in> set L \<or> (c \<noteq> [] \<and> l = c)"
    using l run by (auto simp: wrapText_def split: if_splits)
  then have "fits_or_word measureText maxWidth (set (split_sp text)) l"
    using inv by auto
  then show "maxWidth < measureText l \<longrightarrow> l \<in> set (split_sp text) \<and> CHR '' '' \<notin> set l"
    using split_sp_no_space by (auto simp: fits_or_word_def)
qed

theorem wrapText_wide_line_is_single_word_witness:
  "''abcdef'' \<in> set (wrapText (\<lambda>s. real (length s)) ''abcdef gh'' 3)
   \<and> (3 :: real) < real (length ''abcdef'')
   \<and> ''abcdef'' \<in> set (split_sp ''abcdef gh'') \<and> CHR '' '' \<notin> set ''abcdef''"
proof -
  have mem: "''abcdef'' \<in> set (wrapText (\<lambda>s. real (length s)) ''abcdef gh'' 3)"
    by (simp add: wrapText_def test_def)
  have wide: "(3 :: real) < real (length ''abcdef'')" by simp
  from wrapText_wide_line_is_single_word [of "\<lambda>s. real (length s)" "''abcdef gh''" 3] mem wide
  show ?thesis by blast
qed

subsection \<open>The lines spell the text\<close>

lemma wrap_loop_join:
  assumes "\<forall>w \<in> set ws. w \<noteq> []" and "current \<noteq> []"
    and "wrap_loop m mw ws lines current = (L, c)"
  shows "c \<noteq> [] \<and> join_sp (L @ [c]) = join_sp (lines @ current # ws)"
  using assms
proof (induction ws arbitrary: lines current)
  case Nil
  then show ?case by simp
next
  case (Cons w ws)
  have w: "w \<noteq> []" and rest: "\<forall>w \<in> set ws. w \<noteq> []" using Cons.prems(1) by auto
  show ?case
  proof (cases "m (test current w) > mw \<and> current \<noteq> []")
    case True
    then have run: "wrap_loop m mw ws (lines @ [current]) w = (L, c)"
      using Cons.prems(3) by simp
    show ?thesis using Cons.IH [OF rest w run] by simp
  next
    case False
    then have run: "wrap_loop m mw ws lines (test current w) = (L, c)"
      using Cons.prems(3) by auto
    have t: "test current w = current @ CHR '' '' # w" "test current w \<noteq> []"
      using Cons.prems(2) by (simp_all add: test_def)
    show ?thesis using Cons.IH [OF rest t(2) run] by (simp add: t(1) join_sp_merge)
  qed
qed

lemma join_wrapped_nonempty_words:
  assumes "\<forall>w \<in> set (split_sp text). w \<noteq> []"
  shows "join_sp (wrapText m text mw) = text"
proof -
  obtain w ws where sp: "split_sp text = w # ws"
    using split_sp_nonempty [of "text"] by (cases "split_sp text") auto
  have w: "w \<noteq> []" and rest: "\<forall>w \<in> set ws. w \<noteq> []" using assms sp by auto
  obtain L c where run: "wrap_loop m mw ws [] w = (L, c)"
    by (cases "wrap_loop m mw ws [] w") auto
  have first: "wrap_loop m mw (split_sp text) [] [] = (L, c)"
    using run sp by (simp add: test_def)
  have "c \<noteq> [] \<and> join_sp (L @ [c]) = join_sp ([] @ w # ws)"
    by (rule wrap_loop_join [OF rest w run])
  then have "join_sp (wrapText m text mw) = join_sp (split_sp text)"
    using first sp by (simp add: wrapText_def)
  then show ?thesis by (simp add: join_split)
qed

text \<open>
  C10. For every text whose space-separated words are all non-empty, and every text
  measurement and maximum width, the lines of \<open>wrapText\<close> joined with single spaces are
  exactly the text, and the words of the lines, in order, are exactly the words of the
  text: none is dropped, duplicated, reordered or altered.
\<close>

theorem wrapText_preserves_text:
  assumes "\<forall>w \<in> set (split_sp text). w \<noteq> []"
  shows "join_sp (wrapText measureText text maxWidth) = text
         \<and> concat (map split_sp (wrapText measureText text maxWidth)) = split_sp text"
proof -
  have joined: "join_sp (wrapText measureText text maxWidth) = text"
    using assms by (rule join_wrapped_nonempty_words)
  have "text \<noteq> []" using assms by auto
  then have "wrapText measureText text maxWidth \<noteq> []" using joined by auto
  then have "split_sp (join_sp (wrapText measureText text maxWidth))
      = concat (map split_sp (wrapText measureText text maxWidth))"
    by (rule split_join)
  then show ?thesis using joined by simp
qed

theorem wrapText_preserves_text_witness:
  "split_sp ''abcdef gh'' = [''abcdef'', ''gh'']
   \<and> wrapText (fixed_pitch []) ''abcdef gh'' 30 = [''abcdef'', ''gh'']
   \<and> join_sp (wrapText (fixed_pitch []) ''abcdef gh'' 30) = ''abcdef gh''
   \<and> concat (map split_sp (wrapText (fixed_pitch []) ''abcdef gh'' 30)) = split_sp ''abcdef gh''"
proof -
  have sp: "split_sp ''abcdef gh'' = [''abcdef'', ''gh'']" by simp
  then have words: "\<forall>w \<in> set (split_sp ''abcdef gh''). w \<noteq> []" by simp
  have "wrapText (fixed_pitch []) ''abcdef gh'' 30 = [''abcdef'', ''gh'']"
    by (simp add: wrapText_def test_def fixed_pitch_def)
  then show ?thesis
    using sp wrapText_preserves_text [OF words, of "fixed_pitch []" 30] by simp
qed

subsection \<open>Wrapping again\<close>

lemma wrap_loop_append:
  "wrap_loop m mw (xs @ ys) L c =
     (case wrap_loop m mw xs L c of (L', c') \<Rightarrow> wrap_loop m mw ys L' c')"
  by (induction xs arbitrary: L c) auto

lemma chained_snoc:
  "chained m mw (ls @ [l]) \<longleftrightarrow> chained m mw ls \<and> (ls \<noteq> [] \<longrightarrow> breaks m mw (last ls) l)"
  by (induction m mw ls rule: chained.induct) auto

lemma replays_word:
  assumes "w \<noteq> []" "CHR '' '' \<notin> set w"
  shows "replays m mw w"
  using assms by (simp add: replays_def split_sp_word test_def)

lemma replays_extend:
  assumes "replays m mw current" "\<not> mw < m (test current w)" "CHR '' '' \<notin> set w"
  shows "replays m mw (test current w)"
proof -
  have ne: "current \<noteq> []" and rep: "\<And>L. wrap_loop m mw (split_sp current) L [] = (L, current)"
    using assms(1) by (auto simp: replays_def)
  have t: "test current w = current @ CHR '' '' # w"
    using ne by (simp add: test_def)
  have "wrap_loop m mw (split_sp (test current w)) L [] = (L, test current w)" for L
  proof -
    have "split_sp (test current w) = split_sp current @ [w]"
      using assms(3) by (simp add: t split_sp_append_space split_sp_word)
    then have "wrap_loop m mw (split_sp (test current w)) L [] = wrap_loop m mw [w] L current"
      by (simp add: wrap_loop_append rep)
    also have "\<dots> = (L, test current w)"
      using assms(2) by simp
    finally show ?thesis .
  qed
  then show ?thesis by (simp add: replays_def t)
qed

lemma replay_after_break:
  assumes "replays m mw l" "breaks m mw l0 l" "l0 \<noteq> []"
  shows "wrap_loop m mw (split_sp l) L l0 = (L @ [l0], l)"
proof -
  obtain f rest where sp: "split_sp l = f # rest"
    using split_sp_nonempty [of l] by (cases "split_sp l") auto
  have "wrap_loop m mw (f # rest) (L @ [l0]) [] = (L @ [l0], l)"
    using assms(1) sp by (simp add: replays_def)
  then have "wrap_loop m mw rest (L @ [l0]) f = (L @ [l0], l)"
    by (simp add: test_def)
  moreover have "mw < m (test l0 f)"
    using assms(2,3) sp by (simp add: breaks_def test_def)
  ultimately show ?thesis using sp assms(3) by simp
qed

lemma replay_lines:
  assumes "ls \<noteq> []" "\<forall>l \<in> set ls. replays m mw l" "chained m mw ls"
  shows "wrap_loop m mw (concat (map split_sp ls)) L [] = (L @ butlast ls, last ls)"
  using assms
proof (induction ls rule: rev_induct)
  case Nil
  then show ?case by simp
next
  case (snoc l ls)
  show ?case
  proof (cases "ls = []")
    case True
    then show ?thesis using snoc.prems by (simp add: replays_def)
  next
    case False
    have ih: "wrap_loop m mw (concat (map split_sp ls)) L [] = (L @ butlast ls, last ls)"
      using snoc False by (simp add: chained_snoc)
    have "replays m mw l" "breaks m mw (last ls) l" "last ls \<noteq> []"
      using snoc.prems False by (auto simp: chained_snoc replays_def)
    then have "wrap_loop m mw (split_sp l) (L @ butlast ls) (last ls) = ((L @ butlast ls) @ [last ls], l)"
      by (rule replay_after_break)
    then show ?thesis using ih False by (simp add: wrap_loop_append)
  qed
qed

lemma wrap_inv_step:
  assumes mono: "\<forall>s t. m s \<le> m (s @ t)"
    and inv: "wrap_inv m mw lines current"
    and w: "CHR '' '' \<notin> set w"
  shows "if mw < m (test current w) \<and> current \<noteq> []
         then wrap_inv m mw (lines @ [current]) w
         else wrap_inv m mw lines (test current w)"
proof (cases "mw < m (test current w) \<and> current \<noteq> []")
  case True
  then have ne: "current \<noteq> []" and wide: "mw < m (current @ CHR '' '' # w)"
    by (auto simp: test_def)
  have cur: "replays m mw current" using inv ne by (simp add: wrap_inv_def)
  have "\<forall>l \<in> set (lines @ [current]). replays m mw l"
    using inv cur by (simp add: wrap_inv_def)
  moreover have "chained m mw (lines @ [current])"
    using inv ne by (simp add: wrap_inv_def chained_snoc)
  moreover have "w = [] \<or> replays m mw w"
    using w replays_word by blast
  moreover have "if w \<noteq> [] then breaks m mw current w else mw < m (current @ [CHR '' ''])"
    using wide w by (auto simp: breaks_def split_sp_word)
  ultimately show ?thesis using True by (simp add: wrap_inv_def)
next
  case False
  show ?thesis
  proof (cases "current = []")
    case True
    then have t: "test current w = w" by (simp add: test_def)
    have "w = [] \<or> replays m mw w"
      using w replays_word by blast
    moreover have "breaks m mw (last lines) w" if "lines \<noteq> []" "w \<noteq> []"
    proof -
      have "mw < m (last lines @ [CHR '' ''])"
        using inv that True by (simp add: wrap_inv_def)
      also have "\<dots> \<le> m ((last lines @ [CHR '' '']) @ w)"
        using mono by blast
      finally show ?thesis using w by (simp add: breaks_def split_sp_word)
    qed
    moreover have "mw < m (last lines @ [CHR '' ''])" if "lines \<noteq> []"
      using inv that True by (simp add: wrap_inv_def)
    ultimately have "wrap_inv m mw lines w"
      using inv by (auto simp: wrap_inv_def)
    then show ?thesis using True t by simp
  next
    case ne: False
    then have fit: "\<not> mw < m (test current w)" using False by simp
    have cur: "replays m mw current" using inv ne by (simp add: wrap_inv_def)
    have t: "test current w = current @ CHR '' '' # w" using ne by (simp add: test_def)
    have "replays m mw (test current w)"
      using cur fit w by (rule replays_extend)
    moreover have "breaks m mw (last lines) (test current w)" if "lines \<noteq> []"
      using inv that ne by (simp add: wrap_inv_def breaks_def t hd_split_append_space)
    moreover have "test current w \<noteq> []" by (simp add: t)
    ultimately have "wrap_inv m mw lines (test current w)"
      using inv by (simp add: wrap_inv_def)
    then show ?thesis using fit by simp
  qed
qed

lemma wrap_inv_loop:
  assumes "\<forall>s t. m s \<le> m (s @ t)"
    and "wrap_inv m mw lines current"
    and "\<forall>w \<in> set ws. CHR '' '' \<notin> set w"
    and "wrap_loop m mw ws lines current = (L, c)"
  shows "wrap_inv m mw L c"
  using assms(2-)
proof (induction ws arbitrary: lines current)
  case Nil
  then show ?case by simp
next
  case (Cons w ws)
  have w: "CHR '' '' \<notin> set w" and rest: "\<forall>w \<in> set ws. CHR '' '' \<notin> set w"
    using Cons.prems(2) by auto
  note step = wrap_inv_step [OF assms(1) Cons.prems(1) w]
  show ?case
  proof (cases "mw < m (test current w) \<and> current \<noteq> []")
    case True
    then have "wrap_loop m mw ws (lines @ [current]) w = (L, c)"
      using Cons.prems(3) by simp
    moreover have "wrap_inv m mw (lines @ [current]) w" using step True by simp
    ultimately show ?thesis using Cons.IH rest by blast
  next
    case False
    then have "wrap_loop m mw ws lines (test current w) = (L, c)"
      using Cons.prems(3) by auto
    moreover have "wrap_inv m mw lines (test current w)" using step False by auto
    ultimately show ?thesis using Cons.IH rest by blast
  qed
qed

lemma rewrap_lines:
  assumes "\<forall>l \<in> set ls. replays m mw l" "chained m mw ls"
  shows "wrapText m (join_sp ls) mw = ls"
proof (cases "ls = []")
  case True
  then show ?thesis by (simp add: wrapText_def test_def)
next
  case False
  have "wrap_loop m mw (split_sp (join_sp ls)) [] [] = ([] @ butlast ls, last ls)"
    using False assms by (simp add: split_join replay_lines)
  moreover have "last ls \<noteq> []"
    using False assms(1) by (auto simp: replays_def)
  ultimately show ?thesis using False by (simp add: wrapText_def)
qed

lemma rewrap_monotone:
  assumes "\<forall>s t. m s \<le> m (s @ t)"
  shows "wrapText m (join_sp (wrapText m text mw)) mw = wrapText m text mw"
proof -
  obtain L c where run: "wrap_loop m mw (split_sp text) [] [] = (L, c)"
    by (cases "wrap_loop m mw (split_sp text) [] []") auto
  have "wrap_inv m mw [] []" by (simp add: wrap_inv_def)
  then have inv: "wrap_inv m mw L c"
    using assms split_sp_no_space run by (intro wrap_inv_loop [OF assms _ _ run]) auto
  have out: "wrapText m text mw = (if c \<noteq> [] then L @ [c] else L)"
    using run by (simp add: wrapText_def)
  have "\<forall>l \<in> set (wrapText m text mw). replays m mw l"
    using inv by (auto simp: out wrap_inv_def)
  moreover have "chained m mw (wrapText m text mw)"
    using inv by (auto simp: out wrap_inv_def chained_snoc)
  ultimately show ?thesis by (rule rewrap_lines)
qed

text \<open>
  C8, as amended. Wrapping the lines of \<open>wrapText\<close>, joined with single spaces, again at
  the same maximum width gives the same lines, for every text and maximum width, when
  the measurement never gets smaller as characters are appended to a string, or, for
  any measurement, when all the space-separated words of the text are non-empty.
\<close>

theorem wrapText_rewrap:
  assumes "(\<forall>s t. measureText s \<le> measureText (s @ t)) \<or> (\<forall>w \<in> set (split_sp text). w \<noteq> [])"
  shows "wrapText measureText (join_sp (wrapText measureText text maxWidth)) maxWidth
         = wrapText measureText text maxWidth"
  using assms
proof
  assume "\<forall>s t. measureText s \<le> measureText (s @ t)"
  then show ?thesis by (rule rewrap_monotone)
next
  assume "\<forall>w \<in> set (split_sp text). w \<noteq> []"
  then have "join_sp (wrapText measureText text maxWidth) = text"
    by (rule join_wrapped_nonempty_words)
  then show ?thesis by simp
qed

theorem wrapText_rewrap_witness:
  "(\<forall>s t. fixed_pitch [] s \<le> fixed_pitch [] (s @ t))
   \<and> wrapText (fixed_pitch []) ''ab  cd'' 20 = [''ab'', ''cd'']
   \<and> wrapText (fixed_pitch []) (join_sp (wrapText (fixed_pitch []) ''ab  cd'' 20)) 20
       = wrapText (fixed_pitch []) ''ab  cd'' 20"
proof -
  have mono: "\<forall>s t. fixed_pitch [] s \<le> fixed_pitch [] (s @ t)"
    by (simp add: fixed_pitch_def)
  have "wrapText (fixed_pitch []) ''ab  cd'' 20 = [''ab'', ''cd'']"
    by (simp add: wrapText_def test_def fixed_pitch_def)
  then show ?thesis
    using mono wrapText_rewrap [OF disjI1, OF mono, of "''ab  cd''" 20] by simp
qed

text \<open>
  C8 as stated, for every measurement, fails: under \<open>spiky_measure\<close> the text \<open>a  b\<close>,
  with two spaces, wraps at width 5 to the lines \<open>a\<close> and \<open>b\<close> (the break is at the empty
  word, which is then dropped), and \<open>a b\<close> wraps to the single line \<open>a b\<close>.
\<close>

theorem wrapText_rewrap_counterexample:
  "wrapText spiky_measure (join_sp (wrapText spiky_measure ''a  b'' 5)) 5
   \<noteq> wrapText spiky_measure ''a  b'' 5"
  by (simp add: wrapText_def test_def spiky_measure_def)

section \<open>The beat scan\<close>

lemma foldl_durations: "foldl (\<lambda>a b. a + durationMs b) a0 bs = a0 + sum_list (map durationMs bs)"
  by (induction bs arbitrary: a0) auto

lemma totalDuration_sum: "totalDuration (Some p) = sum_list (map durationMs (beats p))"
  by (simp add: totalDuration_def foldl_durations)

lemma beat_scan_break:
  assumes "k < length ds" "t < sum_list (take (Suc k) ds)"
  shows "\<exists>n. n < length ds
           \<and> beat_scan ds i t bs = (i + n, t - sum_list (take n ds), bs + sum_list (take n ds))
           \<and> t < sum_list (take (Suc n) ds)
           \<and> (\<forall>j < n. sum_list (take (Suc j) ds) \<le> t)"
  using assms
proof (induction ds arbitrary: i t bs k)
  case Nil
  then show ?case by simp
next
  case (Cons d ds)
  show ?case
  proof (cases "t < d")
    case True
    then have "beat_scan (d # ds) i t bs = (i + 0, t - sum_list (take 0 (d # ds)), bs + sum_list (take 0 (d # ds)))"
      by simp
    moreover have "t < sum_list (take (Suc 0) (d # ds))" using True by simp
    ultimately show ?thesis by blast
  next
    case False
    then obtain k' where k': "k = Suc k'"
      using Cons.prems by (cases k) auto
    have "k' < length ds" "t - d < sum_list (take (Suc k') ds)"
      using Cons.prems k' by auto
    from Cons.IH [OF this, of "Suc i" "bs + d"]
    obtain n where n: "n < length ds"
      "beat_scan ds (Suc i) (t - d) (bs + d) =
         (Suc i + n, t - d - sum_list (take n ds), bs + d + sum_list (take n ds))"
      "t - d < sum_list (take (Suc n) ds)"
      "\<forall>j < n. sum_list (take (Suc j) ds) \<le> t - d"
      by blast
    have "Suc n < length (d # ds)" using n(1) by simp
    moreover have "beat_scan (d # ds) i t bs =
        (i + Suc n, t - sum_list (take (Suc n) (d # ds)), bs + sum_list (take (Suc n) (d # ds)))"
      using False n(2) by (simp add: algebra_simps)
    moreover have "t < sum_list (take (Suc (Suc n)) (d # ds))" using n(3) by simp
    moreover have "\<forall>j < Suc n. sum_list (take (Suc j) (d # ds)) \<le> t"
    proof (intro allI impI)
      fix j assume "j < Suc n"
      then show "sum_list (take (Suc j) (d # ds)) \<le> t"
        using n(4) False by (cases j) auto
    qed
    ultimately show ?thesis by blast
  qed
qed

lemma current_beat_in_range:
  assumes ne: "beats p \<noteq> []" and lo: "0 \<le> e" and hi: "e < totalDuration (Some p)"
  shows "case current_beat (Some p) e of (i, t, beatStart) \<Rightarrow>
        i < length (beats p)
        \<and> cumulative_start p i \<le> e \<and> e < cumulative_end p i
        \<and> (\<forall>j<i. \<not> (cumulative_start p j \<le> e \<and> e < cumulative_end p j))
        \<and> t = e - cumulative_start p i \<and> beatStart = cumulative_start p i
        \<and> beat_at (Some p) i = Some (beats p ! i)
        \<and> beat_progress (beat_at (Some p) i) t
            = Some (min 1 (max 0 (t / durationMs (beats p ! i))))"
proof -
  let ?ds = "map durationMs (beats p)"
  have len: "length (beats p) - 1 < length ?ds" using ne by simp
  have "take (Suc (length (beats p) - 1)) ?ds = ?ds" using ne by simp
  then have "e < sum_list (take (Suc (length (beats p) - 1)) ?ds)"
    using hi by (simp add: totalDuration_sum)
  from beat_scan_break [OF len this, of 0 0]
  obtain n where n: "n < length ?ds"
      "beat_scan ?ds 0 e 0 = (0 + n, e - sum_list (take n ?ds), 0 + sum_list (take n ?ds))"
      "e < sum_list (take (Suc n) ?ds)"
      "\<forall>j < n. sum_list (take (Suc j) ?ds) \<le> e"
    by blast
  have cs: "cumulative_start p k = sum_list (take k ?ds)" for k
    by (simp add: cumulative_start_def take_map)
  have ce: "cumulative_end p k = sum_list (take (Suc k) ?ds)" for k
    by (simp add: cumulative_end_def take_map)
  have nlen: "n < length (beats p)" using n(1) by simp
  have step: "cumulative_end p n = cumulative_start p n + durationMs (beats p ! n)"
    using nlen by (simp add: cumulative_end_def cumulative_start_def take_Suc_conv_app_nth)
  have start: "cumulative_start p n \<le> e"
  proof (cases n)
    case 0
    then show ?thesis using lo by (simp add: cumulative_start_def)
  next
    case (Suc m)
    then have "sum_list (take (Suc m) ?ds) \<le> e" using n(4) by simp
    then show ?thesis using Suc by (simp add: cs)
  qed
  have first: "\<forall>j<n. \<not> (cumulative_start p j \<le> e \<and> e < cumulative_end p j)"
    using n(4) by (auto simp: ce)
  have pos: "0 < durationMs (beats p ! n)"
    using start n(3) step by (simp add: ce)
  have res: "current_beat (Some p) e = (n, e - cumulative_start p n, cumulative_start p n)"
    using n(2) by (simp add: current_beat_def cs)
  have at: "beat_at (Some p) n = Some (beats p ! n)"
    using nlen by (simp add: beat_at_def)
  have prog: "beat_progress (beat_at (Some p) n) (e - cumulative_start p n)
      = Some (min 1 (max 0 ((e - cumulative_start p n) / durationMs (beats p ! n))))"
    using pos by (simp add: at beat_progress_def)
  show ?thesis
    using nlen start n(3) first at prog by (simp add: res ce)
qed

text \<open>
  C5. For every non-empty plan and every elapsed time from 0 up to, but excluding, the
  total duration, the scan stops at the first beat whose cumulative start is at most the
  elapsed time and whose cumulative end is beyond it; \<open>t\<close> is the elapsed time minus that
  cumulative start, and the progress is \<open>t\<close> over the beat's duration, clamped to the
  unit interval. In scenario B, at 1500 ms, the beat is B and \<open>t\<close> is 500.
\<close>

theorem current_beat_within_total:
  "(\<forall>p e. beats p \<noteq> [] \<and> 0 \<le> e \<and> e < totalDuration (Some p) \<longrightarrow>
      (case current_beat (Some p) e of (i, t, beatStart) \<Rightarrow>
        i < length (beats p)
        \<and> cumulative_start p i \<le> e \<and> e < cumulative_end p i
        \<and> (\<forall>j<i. \<not> (cumulative_start p j \<le> e \<and> e < cumulative_end p j))
        \<and> t = e - cumulative_start p i \<and> beatStart = cumulative_start p i
        \<and> beat_at (Some p) i = Some (beats p ! i)
        \<and> beat_progress (beat_at (Some p) i) t
            = Some (min 1 (max 0 (t / durationMs (beats p ! i))))))
   \<and> (case current_beat (Some scenario_B) 1500 of (i, t, beatStart) \<Rightarrow>
        map_option beat_text (beat_at (Some scenario_B) i) = Some ''B'' \<and> t = 500)"
proof (rule conjI)
  show "case current_beat (Some scenario_B) 1500 of (i, t, beatStart) \<Rightarrow>
        map_option beat_text (beat_at (Some scenario_B) i) = Some ''B'' \<and> t = 500"
    by (simp add: current_beat_def beat_at_def scenario_B_def)
next
  show "\<forall>p e. beats p \<noteq> [] \<and> 0 \<le> e \<and> e < totalDuration (Some p) \<longrightarrow>
      (case current_beat (Some p) e of (i, t, beatStart) \<Rightarrow>
        i < length (beats p)
        \<and> cumulative_start p i \<le> e \<and> e < cumulative_end p i
        \<and> (\<forall>j<i. \<not> (cumulative_start p j \<le> e \<and> e < cumulative_end p j))
        \<and> t = e - cumulative_start p i \<and> beatStart = cumulative_start p i
        \<and> beat_at (Some p) i = Some (beats p ! i)
        \<and> beat_progress (beat_at (Some p) i) t
            = Some (min 1 (max 0 (t / durationMs (beats p ! i)))))"
  proof (intro allI impI)
    fix p e
    assume "beats p \<noteq> [] \<and> 0 \<le> e \<and> e < totalDuration (Some p)"
    then have "beats p \<noteq> []" "0 \<le> e" "e < totalDuration (Some p)" by simp_all
    then show "case current_beat (Some p) e of (i, t, beatStart) \<Rightarrow>
        i < length (beats p)
        \<and> cumulative_start p i \<le> e \<and> e < cumulative_end p i
        \<and> (\<forall>j<i. \<not> (cumulative_start p j \<le> e \<and> e < cumulative_end p j))
        \<and> t = e - cumulative_start p i \<and> beatStart = cumulative_start p i
        \<and> beat_at (Some p) i = Some (beats p ! i)
        \<and> beat_progress (beat_at (Some p) i) t
            = Some (min 1 (max 0 (t / durationMs (beats p ! i))))"
      by (rule current_beat_in_range)
  qed
qed

theorem current_beat_within_total_witness:
  "beats scenario_B \<noteq> [] \<and> (0 :: real) \<le> 1500 \<and> 1500 < totalDuration (Some scenario_B)
   \<and> current_beat (Some scenario_B) 1500 = (1, 500, 1000)
   \<and> cumulative_start scenario_B 1 \<le> 1500 \<and> 1500 < cumulative_end scenario_B 1
   \<and> cumulative_start scenario_B 1 = 1000"
proof -
  have hyp: "beats scenario_B \<noteq> [] \<and> (0 :: real) \<le> 1500 \<and> 1500 < totalDuration (Some scenario_B)"
    by (simp add: scenario_B_def totalDuration_def)
  have val: "current_beat (Some scenario_B) 1500 = (1, 500, 1000)"
    by (simp add: current_beat_def scenario_B_def)
  note inst = current_beat_within_total [THEN conjunct1, rule_format, OF hyp]
  have "cumulative_start scenario_B 1 \<le> 1500 \<and> 1500 < cumulative_end scenario_B 1
      \<and> cumulative_start scenario_B 1 = 1000"
    using inst by (simp add: val)
  then show ?thesis using hyp val by simp
qed

subsection \<open>At and past the end\<close>

text \<open>
  When the elapsed time has reached the total duration the loop never breaks: the index
  stays 0, the first beat, and \<open>t\<close> is the time past the end.
\<close>

lemma beat_scan_past_end:
  assumes "\<forall>d \<in> set ds. 0 \<le> d" "sum_list ds \<le> t"
  shows "beat_scan ds i t bs = (0, t - sum_list ds, bs + sum_list ds)"
  using assms
proof (induction ds arbitrary: i t bs)
  case Nil
  then show ?case by simp
next
  case (Cons d ds)
  have "0 \<le> sum_list ds" using Cons.prems(1) by (intro sum_list_nonneg) auto
  then have "\<not> t < d" "sum_list ds \<le> t - d" using Cons.prems(2) by auto
  then show ?case using Cons.IH [of "t - d" "Suc i" "bs + d"] Cons.prems(1)
    by (simp add: algebra_simps)
qed

lemma current_beat_past_end:
  assumes "\<forall>b \<in> set (beats p). 0 \<le> durationMs b" "totalDuration (Some p) \<le> elapsed"
  shows "current_beat (Some p) elapsed = (0, elapsed - totalDuration (Some p), totalDuration (Some p))"
  using assms beat_scan_past_end [of "map durationMs (beats p)" elapsed 0 0]
  by (simp add: current_beat_def totalDuration_sum)

text \<open>
  C1 says that from the total duration on the scan gives the last beat, with \<open>t\<close> equal
  to that beat's duration. In scenario B, at 3000 ms, which is the total duration and
  the time that \<open>tick\<close> and \<open>loop\<close> pass for the final frame, the code gives the first
  beat, A, with \<open>t = 0\<close> and progress 0; the last beat is B, of 2000 ms.
\<close>

theorem current_beat_at_total_scenario_B:
  "totalDuration (Some scenario_B) = 3000
   \<and> current_beat (Some scenario_B) 3000 = (0, 0, 3000)
   \<and> beat_at (Some scenario_B) 0 = Some \<lparr>beat_text = ''A'', durationMs = 1000\<rparr>
   \<and> beat_progress (beat_at (Some scenario_B) 0) 0 = Some 0
   \<and> last (beats scenario_B) = \<lparr>beat_text = ''B'', durationMs = 2000\<rparr>"
  by (simp add: totalDuration_def current_beat_def beat_at_def beat_progress_def scenario_B_def)

section \<open>The frame renderer\<close>

lemma drawn_texts_append: "drawn_texts (xs @ ys) = drawn_texts xs @ drawn_texts ys"
  by (induction xs rule: drawn_texts.induct) auto

lemma frame_ops_texts:
  "\<exists>mid. drawn_texts (frame_ops m r e c) =
      (case plan_title (plan r) of None \<Rightarrow> ''Reel'' | Some s \<Rightarrow> if s \<noteq> [] then s else ''Reel'')
      # mid
      @ [case plan_cta (plan r) of None \<Rightarrow> [] | Some s \<Rightarrow> s,
         case plan_hashtags (plan r) of None \<Rightarrow> [] | Some hs \<Rightarrow> join_sp (take 3 hs)]"
  by (auto simp: frame_ops_def Let_def drawn_texts_append split: prod.splits option.splits)

text \<open>
  C7, as amended. For every plan value, none included, and every canvas that has a paint
  context, \<open>drawFrame\<close> completes: it paints the frame and leaves the bitmap size as it
  was. The frame draws at least three strings: first the title, last the call to action
  and then the first three hashtags, joined by spaces. An absent call to action and an
  absent hashtag list are drawn as the empty string; an absent or empty title is drawn
  as \<open>Reel\<close>.
\<close>

theorem drawFrame_optional_fields:
  assumes "context2d c = Some measureText"
  shows "\<exists>c' texts.
           drawFrame r elapsed (Some c) = Some c'
           \<and> c_width c' = c_width c \<and> c_height c' = c_height c
           \<and> painted c' = frame_ops measureText r elapsed c
           \<and> drawn_texts (painted c') = texts
           \<and> 3 \<le> length texts
           \<and> hd texts = (case plan_title (plan r) of
                           None \<Rightarrow> ''Reel''
                         | Some s \<Rightarrow> if s = [] then ''Reel'' else s)
           \<and> texts ! (length texts - 2) = (case plan_cta (plan r) of None \<Rightarrow> [] | Some s \<Rightarrow> s)
           \<and> last texts = (case plan_hashtags (plan r) of
                             None \<Rightarrow> []
                           | Some hs \<Rightarrow> join_sp (take 3 hs))"
proof -
  obtain mid where t: "drawn_texts (frame_ops measureText r elapsed c) =
      (case plan_title (plan r) of None \<Rightarrow> ''Reel'' | Some s \<Rightarrow> if s \<noteq> [] then s else ''Reel'')
      # mid
      @ [case plan_cta (plan r) of None \<Rightarrow> [] | Some s \<Rightarrow> s,
         case plan_hashtags (plan r) of None \<Rightarrow> [] | Some hs \<Rightarrow> join_sp (take 3 hs)]"
    using frame_ops_texts by blast
  have "drawFrame r elapsed (Some c) =
      Some (c\<lparr>textBaseline :=
                 (case beat_at (plan r) (fst (current_beat (plan r) elapsed)) of
                    None \<Rightarrow> textBaseline c
                  | Some _ \<Rightarrow> ''top''),
               painted := frame_ops measureText r elapsed c\<rparr>)"
    using assms by (simp add: drawFrame_def)
  then show ?thesis
    by (simp add: t nth_append split: option.splits)
qed

theorem drawFrame_optional_fields_witness:
  "context2d preview_canvas = Some fixed_pitch
   \<and> plan_title (plan null_render) = None
   \<and> plan_cta (plan null_render) = None
   \<and> plan_hashtags (plan null_render) = None
   \<and> frame_texts (drawFrame null_render 0 (Some preview_canvas)) = [''Reel'', [], []]"
proof -
  have ctx: "context2d preview_canvas = Some fixed_pitch"
    by (simp add: preview_canvas_def)
  have absent: "plan_title (plan null_render) = None" "plan_cta (plan null_render) = None"
      "plan_hashtags (plan null_render) = None"
    by (simp_all add: null_render_def plan_title_def plan_cta_def plan_hashtags_def)
  obtain c' texts where c':
      "drawFrame null_render 0 (Some preview_canvas) = Some c'"
      "painted c' = frame_ops fixed_pitch null_render 0 preview_canvas"
      "drawn_texts (painted c') = texts"
    using drawFrame_optional_fields [OF ctx, of null_render 0] by blast
  have "drawn_texts (frame_ops fixed_pitch null_render 0 preview_canvas) = [''Reel'', [], []]"
    by (simp add: frame_ops_def null_render_def plan_title_def plan_cta_def plan_hashtags_def
        current_beat_def beat_at_def beat_progress_def totalDuration_def Let_def)
  then show ?thesis
    using ctx absent c' by (simp add: frame_texts_def)
qed

text \<open>
  C7 as stated, with an absent title drawn as the empty string, fails: without a plan
  the first string drawn, the title, is \<open>Reel\<close>.
\<close>

theorem drawFrame_absent_title_counterexample:
  "plan_title (plan null_render) = None
   \<and> hd (frame_texts (drawFrame null_render 0 (Some preview_canvas))) = ''Reel''
   \<and> hd (frame_texts (drawFrame null_render 0 (Some preview_canvas))) \<noteq> []"
  by (simp add: frame_texts_def drawFrame_def preview_canvas_def frame_ops_def null_render_def
      plan_title_def plan_cta_def plan_hashtags_def current_beat_def beat_at_def
      beat_progress_def totalDuration_def Let_def)

section \<open>Playback\<close>

lemma play_noop: "plan r = None \<or> isPlaying r \<Longrightarrow> play r now st = st"
  by (simp add: play_def)

lemma play_starts:
  assumes "plan r \<noteq> None" "\<not> isPlaying r"
  shows "isPlaying_state (play r now st)"
    and "pending_ticks (play r now st) = Suc (pending_ticks st)"
    and "startTimeRef (play r now st) = now"
  using assms by (auto simp: play_def requestAnimationFrame_def pending_ticks_def)

lemma play_twice:
  fixes p w h t1 t2 st
  defines "st1 \<equiv> play (handle (Some p) w h st) t1 st"
  defines "st2 \<equiv> play (handle (Some p) w h st1) t2 st1"
  shows "st2 = st1"
    and "\<not> isPlaying_state st \<Longrightarrow> pending_ticks st2 = Suc (pending_ticks st)"
proof -
  have running: "isPlaying_state st1"
  proof (cases "isPlaying_state st")
    case True
    then show ?thesis by (simp add: st1_def play_def handle_def)
  next
    case False
    then show ?thesis unfolding st1_def by (intro play_starts) (simp_all add: handle_def)
  qed
  then show same: "st2 = st1"
    unfolding st2_def by (intro play_noop) (simp add: handle_def)
  show "pending_ticks st2 = Suc (pending_ticks st)" if "\<not> isPlaying_state st"
    unfolding same st1_def using that by (intro play_starts) (simp_all add: handle_def)
qed

text \<open>
  With a render between the two calls the handle is rebuilt from the state the first
  call has set (line 203), and the second call changes nothing: on a player that is not
  running and has no tick scheduled, exactly one tick callback is scheduled then.
\<close>

lemma play_after_render:
  "(\<forall>r now st. plan r = None \<or> isPlaying r \<longrightarrow> play r now st = st)
   \<and> (\<forall>p w h t1 t2 st.
        \<not> isPlaying_state st \<and> pending_ticks st = 0 \<longrightarrow>
        pending_ticks (play (handle (Some p) w h (play (handle (Some p) w h st) t1 st)) t2
                         (play (handle (Some p) w h st) t1 st)) = 1
        \<and> play (handle (Some p) w h (play (handle (Some p) w h st) t1 st)) t2
             (play (handle (Some p) w h st) t1 st)
           = play (handle (Some p) w h st) t1 st)"
  using play_noop play_twice by simp

text \<open>
  The guard reads the \<open>isPlaying\<close> of the render that made the closure, not the state
  that \<open>play\<close> has set. Two calls of one and the same closure, with no render between
  them, both pass it.
\<close>

lemma play_same_closure_twice:
  assumes "plan r \<noteq> None" "\<not> isPlaying r"
  shows "pending_ticks (play r t2 (play r t1 st)) = Suc (Suc (pending_ticks st))"
  using assms by (simp add: play_starts)

text \<open>
  C4 says that \<open>play\<close> does nothing when playback is already running, so that two calls
  in a row, with no \<open>stop\<close> between them, leave exactly one tick callback scheduled. On
  the player after mount, with the plan of scenario B, \<open>play\<close> is called twice on the
  handle, at 100 and at 105. After the first call the running state is set and one tick
  is scheduled; the second call still sets the anchor, to 105, and schedules a second
  tick: two are pending.
\<close>

theorem play_twice_one_handle:
  "isPlaying_state (play first_handle 100 after_mount)
   \<and> pending_ticks (play first_handle 100 after_mount) = 1
   \<and> pending_ticks (play first_handle 105 (play first_handle 100 after_mount)) = 2
   \<and> startTimeRef (play first_handle 105 (play first_handle 100 after_mount)) = 105"
proof -
  have idle: "pending_ticks after_mount = 0"
    by (simp add: after_mount_def size_effect_def mounted_def draw_def pending_ticks_def Let_def)
  have closure: "plan first_handle \<noteq> None" "\<not> isPlaying first_handle"
    by (simp_all add: first_handle_def handle_def after_mount_def size_effect_def mounted_def
        draw_def Let_def)
  show ?thesis
    using idle closure by (simp add: play_starts)
qed

section \<open>Capture\<close>

lemmas run_defs = after_mount_def size_effect_def handle_def mounted_def geometry_def draw_def
      drawFrame_def set_bitmap_size_def FULL_W_def FULL_H_def Let_def recordFullPlayback_def
      requestAnimationFrame_def cancelAnimationFrame_def stop_def play_def tick_def loop_def
      resume_def settle_def animation_frame_def totalDuration_def scenario_B_def
      round_double_def ulp_def round_half_even_def pow2_below.simps pow2_above.simps

lemma animation_frame_idle:
  assumes "frame_requests st = []" "recorder st \<noteq> Stopped"
  shows "animation_frame now st = st"
proof -
  have "st\<lparr>frame_requests := []\<rparr> = st"
    using assms(1) by (cases st) simp
  then show ?thesis
    using assms by (simp add: animation_frame_def settle_def split: option.splits)
qed

text \<open>
  C2 says that a capture stopped from outside still restores the size of the canvas and
  never returns an artifact. After mount the canvas is 1080 by 1920 with a CSS size of
  360 by 640 pixels. Export is pressed, then Stop, then the first frame comes: \<open>loop\<close>
  returns at once, the sink is never stopped, the call stays suspended, nothing is
  scheduled any more, and the canvas keeps the CSS size of 1080 by 1920 pixels that
  the capture gave it. No later frame changes that.
\<close>

theorem cancelled_capture_not_restored:
  "geometry after_mount = Some (1080, 1920, Px 360, Px 640)
   \<and> geometry cancelled_capture = Some (1080, 1920, Px 1080, Px 1920)
   \<and> returned cancelled_capture = None
   \<and> suspended cancelled_capture = Some (handle (Some scenario_B) 360 640 after_mount)
   \<and> recorder cancelled_capture = Recording
   \<and> frame_requests cancelled_capture = []
   \<and> animation_frame now cancelled_capture = cancelled_capture"
proof -
  have state: "geometry cancelled_capture = Some (1080, 1920, Px 1080, Px 1920)
      \<and> returned cancelled_capture = None
      \<and> suspended cancelled_capture = Some (handle (Some scenario_B) 360 640 after_mount)
      \<and> recorder cancelled_capture = Recording
      \<and> frame_requests cancelled_capture = []"
    by (simp add: cancelled_capture_def run_defs)
  moreover have "geometry after_mount = Some (1080, 1920, Px 360, Px 640)"
    by (simp add: run_defs)
  moreover have "animation_frame now cancelled_capture = cancelled_capture"
    using state by (intro animation_frame_idle) simp_all
  ultimately show ?thesis by simp
qed

text \<open>
  When Play was pressed before Export, the capture's \<open>loop\<close> reads the \<open>isPlaying\<close> of
  its own render, which stays true: Stop does not end it. Stop clears the anchor, so the
  next frame counts its elapsed time from 0, the capture ends early and the call
  returns the frames so far as its artifact.
\<close>

lemma stopped_running_capture_returns:
  "returned stopped_running_capture = Some [16, 0, 3000]
   \<and> geometry stopped_running_capture = Some (360, 640, Px 360, Px 640)"
  by (simp add: stopped_running_capture_def run_defs)

text \<open>
  The restoration of lines 194-197 computes the size from the props of the render that
  made the call, whatever the canvas was before the capture. The bitmap is the floor of
  a double that is the props' width or height or just below it: props of 39 by 123
  give a bitmap of 38 by 122. The size effect rounds likewise: props of 535 by 640 give
  a bitmap of 1079 by 1291.
\<close>

lemma resume_geometry:
  assumes "canvasRef st \<noteq> None"
  shows "geometry (resume r st) =
     Some (\<lfloor>round_double (real_of_int FULL_W * round_double (width r / real_of_int FULL_W))\<rfloor>,
           \<lfloor>round_double (real_of_int FULL_H * round_double (height r / real_of_int FULL_H))\<rfloor>,
           Px (width r), Px (height r))"
  using assms
  by (auto simp: resume_def geometry_def draw_def drawFrame_def set_bitmap_size_def Let_def
      split: option.splits)

lemma resume_geometry_39_by_123:
  assumes "canvasRef st \<noteq> None" "width r = 39" "height r = 123"
  shows "geometry (resume r st) = Some (38, 122, Px 39, Px 123)"
proof -
  have "\<lfloor>round_double (1080 * round_double (39 / 1080))\<rfloor> = 38"
    by (simp add: round_double_def ulp_def round_half_even_def pow2_below.simps pow2_above.simps)
  moreover have "\<lfloor>round_double (1920 * round_double (123 / 1920))\<rfloor> = 122"
    by (simp add: round_double_def ulp_def round_half_even_def pow2_below.simps pow2_above.simps)
  ultimately show ?thesis
    using assms by (simp add: resume_geometry FULL_W_def FULL_H_def)
qed

lemma size_effect_geometry_535_by_640:
  assumes "canvasRef st \<noteq> None" "width r = 535" "height r = 640"
  shows "geometry (size_effect r st) = Some (1079, 1291, Px 535, Px 640)"
proof -
  have scale: "min (round_double (1080 / 535)) (round_double (1920 / 640)) = round_double (1080 / 535)"
    by (simp add: round_double_def ulp_def round_half_even_def pow2_below.simps pow2_above.simps)
  have "\<lfloor>round_double (535 * round_double (1080 / 535))\<rfloor> = 1079"
    by (simp add: round_double_def ulp_def round_half_even_def pow2_below.simps pow2_above.simps)
  moreover have "\<lfloor>round_double (640 * round_double (1080 / 535))\<rfloor> = 1291"
    by (simp add: round_double_def ulp_def round_half_even_def pow2_below.simps pow2_above.simps)
  ultimately show ?thesis
    using assms scale
    by (auto simp: size_effect_def geometry_def draw_def drawFrame_def set_bitmap_size_def
        FULL_W_def FULL_H_def Let_def split: option.splits)
qed

text \<open>
  C3 says that a completed capture leaves the canvas with the size it had before, and
  nothing else changed. Play is pressed, then Export, and the frames run to the end of
  the plan: the capture returns its artifact and draws the first frame again, but the
  bitmap, 1080 by 1920 before the capture, is now 360 by 640, the size of the props;
  the running flag, true before the capture, is false, and the anchor is the capture's.
\<close>

theorem completed_capture_geometry:
  "geometry after_mount = Some (1080, 1920, Px 360, Px 640)
   \<and> geometry
        (foldl (step (Some scenario_B) 360 640) after_mount [PressPlay 100, Frame 116])
       = Some (1080, 1920, Px 360, Px 640)
   \<and> geometry completed_capture = Some (360, 640, Px 360, Px 640)
   \<and> returned completed_capture = Some [16, 3000]
   \<and> suspended completed_capture = None
   \<and> isPlaying_state completed_capture = False
   \<and> startTimeRef completed_capture = 1000"
proof -
  have "geometry after_mount = Some (1080, 1920, Px 360, Px 640)"
    by (simp add: run_defs)
  moreover have "geometry
        (foldl (step (Some scenario_B) 360 640) after_mount [PressPlay 100, Frame 116])
       = Some (1080, 1920, Px 360, Px 640)"
    by (simp add: run_defs)
  moreover have "geometry completed_capture = Some (360, 640, Px 360, Px 640)
      \<and> returned completed_capture = Some [16, 3000]
      \<and> suspended completed_capture = None
      \<and> isPlaying_state completed_capture = False
      \<and> startTimeRef completed_capture = 1000"
    by (simp add: completed_capture_def run_defs)
  ultimately show ?thesis by simp
qed

end
